theory Spec2Isabelle
  imports Main "HOL-Library.Sublist"
begin

section \<open>Python strings\<close>

text \<open>
  A Python 3 \<open>str\<close> is a sequence of Unicode code points, so a string is a list of
  natural numbers here and \<open>length\<close> counts code points. \<open>ustr\<close> turns a literal of
  the theory into such a list.
\<close>

type_synonym ustring = "nat list"

definition ustr :: "string \<Rightarrow> ustring" where
  "ustr s = map of_char s"

text \<open>
  \<open>str.isspace\<close> for one code point: the characters \<open>str.strip()\<close> and \<open>str.split()\<close>
  treat as whitespace (U+0009..U+000D, U+001C..U+0020, U+0085, U+00A0, U+1680,
  U+2000..U+200A, U+2028, U+2029, U+202F, U+205F, U+3000).
\<close>

definition is_space :: "nat \<Rightarrow> bool" where
  "is_space c \<longleftrightarrow>
     (9 \<le> c \<and> c \<le> 13) \<or> (28 \<le> c \<and> c \<le> 32) \<or> c = 133 \<or> c = 160 \<or> c = 5760 \<or>
     (8192 \<le> c \<and> c \<le> 8202) \<or> c = 8232 \<or> c = 8233 \<or> c = 8239 \<or> c = 8287 \<or> c = 12288"

definition lstrip :: "ustring \<Rightarrow> ustring" where
  "lstrip s = dropWhile is_space s"

definition rstrip :: "ustring \<Rightarrow> ustring" where
  "rstrip s = rev (dropWhile is_space (rev s))"

text \<open>\<open>s.strip()\<close>: whitespace removed at both ends.\<close>

definition strip :: "ustring \<Rightarrow> ustring" where
  "strip s = rstrip (lstrip s)"

text \<open>
  \<open>s.split()\<close> without arguments: the maximal runs of non-whitespace characters, in
  order; \<open>cur\<close> is the word being read.
\<close>

fun split_from :: "ustring \<Rightarrow> ustring \<Rightarrow> ustring list" where
  "split_from cur [] = (if cur = [] then [] else [cur])"
| "split_from cur (c # cs) =
     (if is_space c then (if cur = [] then split_from [] cs else cur # split_from [] cs)
      else split_from (cur @ [c]) cs)"

definition split :: "ustring \<Rightarrow> ustring list" where
  "split s = split_from [] s"

text \<open>\<open>sep.join(parts)\<close>.\<close>

fun join :: "ustring \<Rightarrow> ustring list \<Rightarrow> ustring" where
  "join sep [] = []"
| "join sep [p] = p"
| "join sep (p # q # ps) = p @ sep @ join sep (q # ps)"

text \<open>\<open>k in s\<close> for strings: \<open>k\<close> occurs in \<open>s\<close> as a contiguous substring.\<close>

fun contains :: "ustring \<Rightarrow> ustring \<Rightarrow> bool" where
  "contains k [] = (k = [])"
| "contains k (c # cs) = (prefix k (c # cs) \<or> contains k cs)"

text \<open>
  \<open>str.lower()\<close> and \<open>str.upper()\<close>. The case tables are written out for the code points
  U+0000..U+00FF, where they are those of Python: \<open>lower\<close> maps A..Z and the capital
  letters U+00C0..U+00DE (without the multiplication sign U+00D7) 32 places up;
  \<open>upper\<close> maps a..z and U+00E0..U+00FE (without the division sign U+00F7) 32 places
  down, the sharp s U+00DF to the two letters SS, the micro sign U+00B5 to the Greek
  capital mu U+039C and U+00FF to U+0178. The two capitals that \<open>upper\<close> produces beyond
  U+00FF are given their lower-case forms. The tables of the rest of Unicode are not
  written out: every other code point is left as it is. The statements on table
  selection below hold whatever the case tables are, except the one on upper-case
  questions, which is about ASCII questions and the sharp s.
\<close>

definition lower_cp :: "nat \<Rightarrow> nat" where
  "lower_cp c =
     (if (65 \<le> c \<and> c \<le> 90) \<or> (192 \<le> c \<and> c \<le> 214) \<or> (216 \<le> c \<and> c \<le> 222) then c + 32
      else if c = 924 then 956
      else if c = 376 then 255
      else c)"

definition upper_cp :: "nat \<Rightarrow> ustring" where
  "upper_cp c =
     (if (97 \<le> c \<and> c \<le> 122) \<or> (224 \<le> c \<and> c \<le> 246) \<or> (248 \<le> c \<and> c \<le> 254) then [c - 32]
      else if c = 223 then [83, 83]
      else if c = 181 then [924]
      else if c = 255 then [376]
      else [c])"

definition lower :: "ustring \<Rightarrow> ustring" where
  "lower s = map lower_cp s"

definition upper :: "ustring \<Rightarrow> ustring" where
  "upper s = concat (map upper_cp s)"

section \<open>Query synthesis: sanitising the model's response\<close>

text \<open>
  \<open>re.sub(r"```.*?```", "", sql, flags=re.DOTALL)\<close>. With \<open>DOTALL\<close> the dot matches
  every character, and \<open>.*?\<close> is lazy: a match starts at a fence marker and ends with
  the nearest marker that begins at least three characters later. \<open>after_fence s\<close> looks
  for the first marker in \<open>s\<close> and gives what follows it.
\<close>

definition fence :: ustring where
  "fence = ustr ''```''"

fun after_fence :: "ustring \<Rightarrow> ustring option" where
  "after_fence [] = None"
| "after_fence (c # cs) =
     (if prefix fence (c # cs) then Some (drop 3 (c # cs)) else after_fence cs)"

text \<open>
  The substitution scans from the left: where a match starts it is removed whole and
  the scan goes on behind it, elsewhere the character is kept and the scan moves one
  place on.
\<close>

function re_sub_fences :: "ustring \<Rightarrow> ustring" where
  "re_sub_fences [] = []"
| "re_sub_fences (c # cs) =
     (if prefix fence (c # cs) then
        (case after_fence (drop 3 (c # cs)) of
           Some rest \<Rightarrow> re_sub_fences rest
         | None \<Rightarrow> c # re_sub_fences cs)
      else c # re_sub_fences cs)"
  by pat_completeness auto
termination
proof (relation "measure length")
  show "wf (measure length)" by simp
next
  fix c cs rest
  assume found: "after_fence (drop 3 (c # cs)) = Some rest"
  have "after_fence s = Some r \<Longrightarrow> length r \<le> length s" for s r
    by (induction s) (auto split: if_splits)
  with found have "length rest \<le> length (drop 3 (c # cs))"
    by blast
  then show "(rest, c # cs) \<in> measure length" by simp
qed simp_all

text \<open>
  Lines 126 and 127 of \<open>generate_sql_query\<close>:
  \<^verbatim>\<open>sql = response["message"]["content"].strip()\<close>,
  \<^verbatim>\<open>sql = re.sub(r"```.*?```", "", sql, flags=re.DOTALL).strip()\<close>.
\<close>

definition sanitize :: "ustring \<Rightarrow> ustring" where
  "sanitize content = strip (re_sub_fences (strip content))"

text \<open>
  \<open>generate_sql_query\<close> from the backend's answer on: the backend either raises (the
  message is the error returned) or gives the text of its reply. The result is the
  pair \<open>(sql, error)\<close> of the source.
\<close>

definition generate_sql_query :: "ustring + ustring \<Rightarrow> ustring option \<times> ustring option" where
  "generate_sql_query response =
     (case response of
        Inl e \<Rightarrow> (None, Some e)
      | Inr content \<Rightarrow> (Some (sanitize content), None))"

text \<open>
  \<open>re.search(r"```.*?```", s, flags=re.DOTALL)\<close> finds something: \<open>s\<close> holds a
  fence marker and, behind it, a second one.
\<close>

definition has_fenced_block :: "ustring \<Rightarrow> bool" where
  "has_fenced_block s =
     (case after_fence s of
        None \<Rightarrow> False
      | Some r \<Rightarrow> (case after_fence r of None \<Rightarrow> False | Some _ \<Rightarrow> True))"

section \<open>Intent detection\<close>

definition ranking_keywords :: "ustring list" where
  "ranking_keywords =
     [ustr ''top'', ustr ''highest'', ustr ''lowest'', ustr ''most'', ustr ''least'',
      ustr ''maximum'', ustr ''minimum'', ustr ''rank'', ustr ''order'']"

definition is_ranking_query :: "ustring \<Rightarrow> bool" where
  "is_ranking_query query = list_ex (\<lambda>k. contains k (lower query)) ranking_keywords"

section \<open>Table selection\<close>

text \<open>
  An entry of a table's \<open>columns\<close> list is a bare name, a dictionary with a \<open>name\<close> and
  perhaps a \<open>type\<close>, or something else (a dictionary without \<open>name\<close>, a number), which
  the selection skips. A table is a dictionary read from \<open>table_metadata.json\<close>; each
  of its keys may be missing, and \<open>table.get\<close> then gives the default.
\<close>

datatype column = ColName ustring | ColDict ustring "ustring option" | ColInvalid

record table =
  table_name :: "ustring option"
  description :: "ustring option"
  columns :: "column list option"

definition get_str :: "ustring option \<Rightarrow> ustring" where
  "get_str field = (case field of None \<Rightarrow> [] | Some s \<Rightarrow> s)"

definition get_columns :: "column list option \<Rightarrow> column list" where
  "get_columns field = (case field of None \<Rightarrow> [] | Some cs \<Rightarrow> cs)"

text \<open>The inner loop over \<open>raw_columns\<close>.\<close>

fun column_names :: "column list \<Rightarrow> ustring list" where
  "column_names [] = []"
| "column_names (ColDict name ty # cs) = lower name # column_names cs"
| "column_names (ColName name # cs) = lower name # column_names cs"
| "column_names (ColInvalid # cs) = column_names cs"

definition table_keywords :: "table \<Rightarrow> ustring set" where
  "table_keywords t =
     set (split (lower (get_str (table_name t))) @ split (lower (get_str (description t))) @
          column_names (get_columns (columns t)))"

definition query_words :: "ustring \<Rightarrow> ustring set" where
  "query_words query = set (split (lower query))"

text \<open>\<open>score = len(query_words.intersection(keywords))\<close>.\<close>

definition score :: "ustring set \<Rightarrow> table \<Rightarrow> nat" where
  "score qw t = card (qw \<inter> table_keywords t)"

text \<open>The loop over \<open>TABLE_METADATA\<close> that fills \<open>scored\<close>.\<close>

fun scored_tables :: "ustring set \<Rightarrow> table list \<Rightarrow> (nat \<times> table) list" where
  "scored_tables qw [] = []"
| "scored_tables qw (t # ts) =
     (if score qw t > 0 then (score qw t, t) # scored_tables qw ts
      else scored_tables qw ts)"

text \<open>
  \<open>scored.sort(key=lambda x: x[0], reverse=True)\<close>. Python's sort is stable, and with
  \<open>reverse=True\<close> it stays so: the list is reversed, sorted in ascending order of the
  key and reversed again. \<open>sort_key\<close> is the stable insertion sort of the library.
\<close>

definition sort_reverse :: "(nat \<times> table) list \<Rightarrow> (nat \<times> table) list" where
  "sort_reverse scored = rev (sort_key fst (rev scored))"

text \<open>\<open>select_relevant_tables\<close>, with the global \<open>TABLE_METADATA\<close> as a parameter.\<close>

definition select_relevant_tables :: "table list \<Rightarrow> ustring \<Rightarrow> table list" where
  "select_relevant_tables TABLE_METADATA query =
     (let scored = scored_tables (query_words query) TABLE_METADATA
      in if scored = [] then take 3 TABLE_METADATA
         else map snd (take 3 (sort_reverse scored)))"

section \<open>Answer formatting\<close>

text \<open>
  A value of a result row, as the database connector hands it over, and the text that
  \<open>f"{v}"\<close> makes of it: \<open>None\<close> for SQL NULL, the decimal digits of an integer, a
  string as it is. \<open>VOther\<close> stands for a value of any other type (a decimal, a float,
  a date), kept as the text Python formats it to.
\<close>

datatype db_value = VNull | VInt int | VStr ustring | VOther ustring

function str_nat :: "nat \<Rightarrow> ustring" where
  "str_nat n = (if n < 10 then [48 + n] else str_nat (n div 10) @ [48 + n mod 10])"
  by pat_completeness auto
termination
  by (relation "measure id") auto

declare str_nat.simps [simp del]

definition str_int :: "int \<Rightarrow> ustring" where
  "str_int i = (if i < 0 then 45 # str_nat (nat (- i)) else str_nat (nat i))"

fun format_value :: "db_value \<Rightarrow> ustring" where
  "format_value VNull = ustr ''None''"
| "format_value (VInt i) = str_int i"
| "format_value (VStr s) = s"
| "format_value (VOther s) = s"

text \<open>\<open>", ".join(f"{c}: {v}" for c, v in zip(cols, row))\<close>.\<close>

definition pairs :: "ustring list \<Rightarrow> db_value list \<Rightarrow> ustring list" where
  "pairs cols row = map (\<lambda>(c, v). c @ ustr '': '' @ format_value v) (zip cols row)"

definition row_line :: "ustring list \<Rightarrow> db_value list \<Rightarrow> ustring" where
  "row_line cols row = join (ustr '', '') (pairs cols row)"

text \<open>
  The loop \<open>for i, row in enumerate(rows, 1)\<close>: \<open>text\<close> is the text built so far and
  \<open>i\<close> the number of the next row.
\<close>

fun frame_rows :: "bool \<Rightarrow> ustring list \<Rightarrow> nat \<Rightarrow> ustring \<Rightarrow> db_value list list \<Rightarrow> ustring" where
  "frame_rows ranking cols i text [] = text"
| "frame_rows ranking cols i text (row # rows) =
     frame_rows ranking cols (i + 1)
       (text @ (if ranking then ustr ''Rank '' @ str_nat i @ ustr '': '' @ row_line cols row @ [10]
                else row_line cols row @ [10]))
       rows"

definition frame_answer :: "ustring \<Rightarrow> db_value list list \<Rightarrow> ustring list \<Rightarrow> ustring" where
  "frame_answer query rows cols =
     (if rows = [] then ustr ''No results found.''
      else strip (frame_rows (is_ranking_query query) cols 1 [] rows))"

section \<open>Notions used in the statements\<close>

text \<open>
  The lines of a text, for the statements about the rendered answer: the pieces between
  its newline characters, as \<open>text.split("\n")\<close> gives them.
\<close>

fun text_lines :: "ustring \<Rightarrow> ustring list" where
  "text_lines [] = [[]]"
| "text_lines (c # cs) =
     (if c = 10 then [] # text_lines cs
      else (case text_lines cs of l # ls \<Rightarrow> (c # l) # ls | [] \<Rightarrow> [[c]]))"

text \<open>
  The line that the loop of \<open>frame_answer\<close> writes for row number \<open>i\<close>, without its
  newline, and the lines of all rows, numbered from \<open>i\<close> on.
\<close>

definition answer_line :: "bool \<Rightarrow> ustring list \<Rightarrow> nat \<Rightarrow> db_value list \<Rightarrow> ustring" where
  "answer_line ranking cols i row =
     (if ranking then ustr ''Rank '' @ str_nat i @ ustr '': '' @ row_line cols row
      else row_line cols row)"

definition answer_lines :: "bool \<Rightarrow> ustring list \<Rightarrow> nat \<Rightarrow> db_value list list \<Rightarrow> ustring list" where
  "answer_lines ranking cols i rows =
     map (\<lambda>(j, row). answer_line ranking cols j row) (enumerate i rows)"

text \<open>
  For the proofs about the rendered lines: a line is cut at the colon behind its first
  column name into the part before and the part after it; trimming the whole text
  touches the first part of the first line and the second part of the last line only.
\<close>

definition rank_prefix :: "bool \<Rightarrow> nat \<Rightarrow> ustring" where
  "rank_prefix ranking i = (if ranking then ustr ''Rank '' @ str_nat i @ ustr '': '' else [])"

definition row_tail :: "ustring list \<Rightarrow> db_value list \<Rightarrow> ustring" where
  "row_tail cols row = drop (length (hd cols) + 1) (row_line cols row)"

definition colon_line :: "ustring \<times> ustring \<Rightarrow> ustring" where
  "colon_line p = fst p @ 58 # snd p"

definition trim_first :: "(ustring \<times> ustring) list \<Rightarrow> (ustring \<times> ustring) list" where
  "trim_first ps = (lstrip (fst (hd ps)), snd (hd ps)) # tl ps"

definition trim_last :: "(ustring \<times> ustring) list \<Rightarrow> (ustring \<times> ustring) list" where
  "trim_last ps = butlast ps @ [(fst (last ps), rstrip (snd (last ps)))]"

section \<open>Example data\<close>

text \<open>
  A metadata list of four tables, in the shapes \<open>table_metadata.json\<close> allows (bare and
  structured column entries, one malformed entry, a missing description), and a small
  query result. The last table has a column named with a sharp s (U+00DF).
\<close>

definition orders_table :: table where
  "orders_table =
     \<lparr>table_name = Some (ustr ''orders''), description = Some (ustr ''Customer orders''),
      columns = Some [ColName (ustr ''id''), ColDict (ustr ''amount'') (Some (ustr ''decimal''))]\<rparr>"

definition users_table :: table where
  "users_table =
     \<lparr>table_name = Some (ustr ''users''), description = None,
      columns = Some [ColName (ustr ''id''), ColName (ustr ''name'')]\<rparr>"

definition products_table :: table where
  "products_table =
     \<lparr>table_name = Some (ustr ''products''), description = Some (ustr ''Catalogue of products''),
      columns = Some [ColDict (ustr ''sku'') None, ColInvalid, ColName (ustr ''Price'')]\<rparr>"

definition stores_table :: table where
  "stores_table =
     \<lparr>table_name = Some (ustr ''stores''), description = Some (ustr ''Shop locations''),
      columns = Some [ColName (ustr ''city''), ColName (ustr ''stra'' @ [223] @ ustr ''e'')]\<rparr>"

definition example_metadata :: "table list" where
  "example_metadata = [orders_table, users_table, products_table, stores_table]"

definition example_cols :: "ustring list" where
  "example_cols = [ustr ''id'', ustr ''name'']"

definition example_rows :: "db_value list list" where
  "example_rows = [[VInt 7, VStr (ustr ''Ann'')], [VInt 12, VNull]]"

section \<open>Evaluation on concrete data\<close>

text \<open>The unfoldings that evaluate the selection and the formatting on concrete data.\<close>

lemmas select_eval = example_metadata_def orders_table_def users_table_def products_table_def
  stores_table_def select_relevant_tables_def score_def query_words_def table_keywords_def
  split_def lower_def lower_cp_def upper_def upper_cp_def ustr_def is_space_def get_str_def
  get_columns_def sort_reverse_def

lemmas frame_eval = frame_answer_def is_ranking_query_def ranking_keywords_def lower_def
  lower_cp_def ustr_def strip_def lstrip_def rstrip_def is_space_def row_line_def pairs_def
  str_int_def str_nat.simps

section \<open>Properties of the sanitisation\<close>

subsection \<open>Fence markers and the substitution\<close>

lemma fence_eq: "fence = [96, 96, 96]"
  by (simp add: fence_def ustr_def)

lemma after_fence_None_tl: "after_fence (c # cs) = None \<Longrightarrow> after_fence cs = None"
  by (simp split: if_splits)

lemma after_fence_None_drop: "after_fence s = None \<Longrightarrow> after_fence (drop n s) = None"
proof (induction n arbitrary: s)
  case 0
  then show ?case by simp
next
  case (Suc n)
  show ?case
  proof (cases s)
    case Nil
    then show ?thesis by simp
  next
    case (Cons c cs)
    with Suc.prems have "after_fence cs = None" by (simp split: if_splits)
    then have "after_fence (drop n cs) = None" by (rule Suc.IH)
    with Cons show ?thesis by simp
  qed
qed

lemma after_fence_None_drop_Cons:
  assumes "after_fence (drop n (c # cs)) = None"
  shows "after_fence (drop n cs) = None"
proof -
  have "drop n cs = drop 1 (drop n (c # cs))"
    by (simp add: drop_Suc tl_drop)
  with assms show ?thesis
    by (simp only: after_fence_None_drop)
qed

lemma re_sub_fences_no_close: "after_fence (drop 3 s) = None \<Longrightarrow> re_sub_fences s = s"
proof (induction s)
  case Nil
  then show ?case by simp
next
  case (Cons c cs)
  have "after_fence (drop 3 cs) = None"
    using Cons.prems by (rule after_fence_None_drop_Cons)
  then have "re_sub_fences cs = cs" by (rule Cons.IH)
  with Cons.prems show ?case by simp
qed

lemma re_sub_fences_tick1:
  assumes "re_sub_fences s = 96 # t"
  shows "\<exists>t'. s = 96 # t'"
proof (cases s)
  case Nil
  with assms show ?thesis by simp
next
  case (Cons c cs)
  show ?thesis
  proof (cases "prefix fence (c # cs)")
    case True
    then show ?thesis using Cons by (simp add: fence_eq)
  next
    case False
    with assms Cons show ?thesis by simp
  qed
qed

lemma re_sub_fences_tick2:
  assumes "re_sub_fences s = 96 # 96 # t"
  shows "\<exists>t'. s = 96 # 96 # t'"
proof (cases s)
  case Nil
  with assms show ?thesis by simp
next
  case (Cons c cs)
  show ?thesis
  proof (cases "prefix fence (c # cs)")
    case True
    then show ?thesis using Cons by (auto simp add: fence_eq prefix_def)
  next
    case False
    with assms Cons have "c = 96" and "re_sub_fences cs = 96 # t" by simp_all
    then show ?thesis using Cons re_sub_fences_tick1 by blast
  qed
qed

lemma has_fenced_block_Cons:
  "\<not> prefix fence (c # cs) \<Longrightarrow> has_fenced_block (c # cs) = has_fenced_block cs"
  by (simp add: has_fenced_block_def)

lemma re_sub_fences_no_block: "\<not> has_fenced_block (re_sub_fences s)"
proof (induction s rule: re_sub_fences.induct)
  case 1
  show ?case by (simp add: has_fenced_block_def)
next
  case (2 c cs)
  show ?case
  proof (cases "prefix fence (c # cs)")
    case True
    show ?thesis
    proof (cases "after_fence (drop 3 (c # cs))")
      case None
      then have "re_sub_fences (c # cs) = c # cs" by (rule re_sub_fences_no_close)
      moreover have "\<not> has_fenced_block (c # cs)"
        using True None by (simp add: has_fenced_block_def)
      ultimately show ?thesis by simp
    next
      case (Some rest)
      have "\<not> has_fenced_block (re_sub_fences rest)"
        using True Some by (rule "2.IH"(2))
      with True Some show ?thesis by simp
    qed
  next
    case False
    then have ih: "\<not> has_fenced_block (re_sub_fences cs)" by (rule "2.IH"(3))
    have "\<not> prefix fence (c # re_sub_fences cs)"
    proof
      assume "prefix fence (c # re_sub_fences cs)"
      then obtain t where "c = 96" and "re_sub_fences cs = 96 # 96 # t"
        by (auto simp add: fence_eq prefix_def)
      then obtain t' where "c # cs = 96 # 96 # 96 # t'"
        using re_sub_fences_tick2 by blast
      then have "prefix fence (c # cs)" by (simp add: fence_eq)
      with False show False by simp
    qed
    then have "has_fenced_block (c # re_sub_fences cs) = has_fenced_block (re_sub_fences cs)"
      by (rule has_fenced_block_Cons)
    with ih False show ?thesis by simp
  qed
qed

lemma re_sub_fences_id: "\<not> has_fenced_block s \<Longrightarrow> re_sub_fences s = s"
proof (induction s)
  case Nil
  show ?case by simp
next
  case (Cons c cs)
  show ?case
  proof (cases "prefix fence (c # cs)")
    case True
    with Cons.prems have "after_fence (drop 3 (c # cs)) = None"
      by (simp add: has_fenced_block_def split: option.splits)
    then show ?thesis by (rule re_sub_fences_no_close)
  next
    case False
    with Cons.prems have "\<not> has_fenced_block cs" by (simp add: has_fenced_block_Cons)
    then have "re_sub_fences cs = cs" by (rule Cons.IH)
    with False show ?thesis by simp
  qed
qed


lemma prefix_fence_iff: "prefix fence s \<longleftrightarrow> (\<exists>t. s = 96 # 96 # 96 # t)"
  by (auto simp add: fence_eq prefix_def)

lemma drop_Suc_drop3_Cons: "drop (Suc n) (drop 3 (c # cs)) = drop (n + 3) cs"
proof -
  have "drop (Suc n) (drop 3 (c # cs)) = drop (Suc (n + 3)) (c # cs)"
    by (simp only: drop_drop add_Suc)
  then show ?thesis by (simp only: drop_Suc_Cons)
qed

lemma after_fence_is_drop: "after_fence s = Some r \<Longrightarrow> \<exists>n. r = drop (n + 3) s"
proof (induction s)
  case Nil
  then show ?case by simp
next
  case (Cons c cs)
  show ?case
  proof (cases "prefix fence (c # cs)")
    case True
    with Cons.prems have "r = drop (0 + 3) (c # cs)" by simp
    then show ?thesis by blast
  next
    case False
    with Cons.prems have "after_fence cs = Some r" by simp
    then obtain n where "r = drop (n + 3) cs" using Cons.IH by blast
    then have "r = drop (Suc n + 3) (c # cs)" by (simp only: add_Suc drop_Suc_Cons)
    then show ?thesis by blast
  qed
qed

lemma after_fence_Some_length: "after_fence s = Some r \<Longrightarrow> 3 \<le> length s"
proof (induction s)
  case Nil
  then show ?case by simp
next
  case (Cons c cs)
  show ?case
  proof (cases "prefix fence (c # cs)")
    case True
    then show ?thesis by (auto simp add: prefix_fence_iff)
  next
    case False
    with Cons show ?thesis by simp
  qed
qed

lemma prefix_fence_append:
  assumes "3 \<le> length s"
  shows "prefix fence (s @ t) = prefix fence s"
  using assms
  by (cases s; cases "tl s"; cases "tl (tl s)") (auto simp add: prefix_fence_iff)

lemma after_fence_append:
  "after_fence s = Some r \<Longrightarrow> after_fence (s @ t) = Some (r @ t)"
proof (induction s)
  case Nil
  then show ?case by simp
next
  case (Cons c cs)
  have len: "3 \<le> length (c # cs)"
    using Cons.prems by (rule after_fence_Some_length)
  show ?case
  proof (cases "prefix fence (c # cs)")
    case True
    then have "prefix fence ((c # cs) @ t)"
      using len prefix_fence_append [of "c # cs" t] by blast
    then have "after_fence ((c # cs) @ t) = Some (drop 3 ((c # cs) @ t))"
      by simp
    moreover have "r = drop 3 (c # cs)"
      using True Cons.prems by simp
    ultimately show ?thesis using len by simp
  next
    case False
    then have "\<not> prefix fence ((c # cs) @ t)"
      using len prefix_fence_append [of "c # cs" t] by blast
    moreover have "after_fence (cs @ t) = Some (r @ t)"
      using False Cons by simp
    ultimately show ?thesis by simp
  qed
qed

lemma has_fenced_block_append: "has_fenced_block s \<Longrightarrow> has_fenced_block (s @ t)"
  by (auto simp add: has_fenced_block_def after_fence_append split: option.splits)

lemma has_fenced_block_tl:
  assumes "has_fenced_block cs"
  shows "has_fenced_block (c # cs)"
proof (cases "prefix fence (c # cs)")
  case False
  with assms show ?thesis by (simp add: has_fenced_block_Cons)
next
  case True
  from assms obtain r r' where r: "after_fence cs = Some r" and r': "after_fence r = Some r'"
    by (auto simp add: has_fenced_block_def split: option.splits)
  from r obtain n where n: "r = drop (n + 3) cs"
    using after_fence_is_drop by blast
  have "after_fence (drop 3 (c # cs)) \<noteq> None"
  proof
    assume "after_fence (drop 3 (c # cs)) = None"
    then have "after_fence (drop (Suc n) (drop 3 (c # cs))) = None"
      by (rule after_fence_None_drop)
    moreover have "drop (Suc n) (drop 3 (c # cs)) = r"
      using n by (simp only: drop_Suc_drop3_Cons)
    ultimately show False using r' by simp
  qed
  with True show ?thesis
    by (auto simp add: has_fenced_block_def split: option.splits)
qed

lemma has_fenced_block_drop: "has_fenced_block (drop n s) \<Longrightarrow> has_fenced_block s"
proof (induction s arbitrary: n)
  case Nil
  then show ?case by simp
next
  case (Cons c cs)
  show ?case
  proof (cases n)
    case 0
    with Cons.prems show ?thesis by simp
  next
    case (Suc m)
    with Cons.prems have "has_fenced_block (drop m cs)" by simp
    then have "has_fenced_block cs" by (rule Cons.IH)
    then show ?thesis by (rule has_fenced_block_tl)
  qed
qed

lemma lstrip_is_drop: "lstrip s = drop (length (takeWhile is_space s)) s"
  by (simp add: lstrip_def dropWhile_eq_drop)

lemma rstrip_append: "rstrip s @ rev (takeWhile is_space (rev s)) = s"
proof -
  have "rev (takeWhile is_space (rev s) @ dropWhile is_space (rev s)) = s"
    by simp
  then show ?thesis unfolding rstrip_def by (simp only: rev_append)
qed

lemma has_fenced_block_strip:
  assumes "has_fenced_block (strip s)"
  shows "has_fenced_block s"
proof -
  have "has_fenced_block (rstrip (lstrip s) @ rev (takeWhile is_space (rev (lstrip s))))"
    using assms unfolding strip_def by (rule has_fenced_block_append)
  then have "has_fenced_block (lstrip s)"
    by (simp only: rstrip_append)
  then show ?thesis
    by (simp only: lstrip_is_drop has_fenced_block_drop)
qed

lemma rstrip_rstrip: "rstrip (rstrip s) = rstrip s"
  by (simp add: rstrip_def)

lemma lstrip_no_space: "s = [] \<or> \<not> is_space (hd s) \<Longrightarrow> lstrip s = s"
  by (cases s) (auto simp add: lstrip_def)

lemma lstrip_head: "lstrip s = [] \<or> \<not> is_space (hd (lstrip s))"
  unfolding lstrip_def using hd_dropWhile by blast

lemma lstrip_rstrip_lstrip: "lstrip (rstrip (lstrip s)) = rstrip (lstrip s)"
proof (cases "rstrip (lstrip s) = []")
  case True
  then show ?thesis by (simp add: lstrip_def)
next
  case False
  have eq: "rstrip (lstrip s) @ rev (takeWhile is_space (rev (lstrip s))) = lstrip s"
    by (rule rstrip_append)
  with False have "hd (lstrip s) = hd (rstrip (lstrip s))"
    by (metis hd_append2)
  moreover have "lstrip s \<noteq> []" using False eq by auto
  ultimately have "\<not> is_space (hd (rstrip (lstrip s)))"
    using lstrip_head [of s] by simp
  then show ?thesis by (simp add: lstrip_no_space)
qed

lemma strip_strip: "strip (strip s) = strip s"
  by (simp add: strip_def lstrip_rstrip_lstrip rstrip_rstrip)

subsection \<open>The claims on sanitisation\<close>

text \<open>
  C1 (Scenario C). The backend answers with one fenced block that holds the query,
  \<^verbatim>\<open>```sql\nSELECT 1;\n```\<close>. The pattern matches the whole reply, from the opening marker
  to the closing one, and the substitution deletes it together with the query inside:
  what \<open>generate_sql_query\<close> returns is the empty string, not \<^verbatim>\<open>SELECT 1;\<close>.
\<close>

theorem generate_sql_query_fenced_reply:
  "generate_sql_query (Inr (ustr ''```sql\<newline>SELECT 1;\<newline>```'')) = (Some [], None)"
  by (simp add: generate_sql_query_def sanitize_def strip_def lstrip_def rstrip_def
      ustr_def is_space_def fence_def)

text \<open>
  C2, as stated, says that no fence marker is left anywhere in the sanitised query. A
  reply whose opening fence is never closed gives nothing for the pattern to match, and
  the marker stays: the sanitised text of \<^verbatim>\<open>```sql\nSELECT 1;\<close> still contains it.
\<close>

theorem sanitize_keeps_unclosed_fence:
  "contains fence (sanitize (ustr ''```sql\<newline>SELECT 1;''))"
  by (simp add: sanitize_def strip_def lstrip_def rstrip_def ustr_def is_space_def fence_def)

text \<open>
  C2, amended. For every reply, the sanitised query holds no complete fenced block: it
  never contains a fence marker followed by a second one, so the pattern finds nothing
  more to remove. A single marker without a partner may remain.
\<close>

theorem sanitize_no_fenced_block: "\<not> has_fenced_block (sanitize s)"
proof -
  have "\<not> has_fenced_block (re_sub_fences (strip s))"
    by (rule re_sub_fences_no_block)
  then show ?thesis
    unfolding sanitize_def using has_fenced_block_strip by blast
qed

text \<open>
  C3. Sanitising is idempotent: applied to its own result, the stripping of fenced
  blocks and of surrounding whitespace changes nothing, for every string.
\<close>

theorem sanitize_idempotent: "sanitize (sanitize s) = sanitize s"
proof -
  have "\<not> has_fenced_block (re_sub_fences (strip s))"
    by (rule re_sub_fences_no_block)
  then have "\<not> has_fenced_block (sanitize s)"
    unfolding sanitize_def using has_fenced_block_strip by blast
  then have "re_sub_fences (sanitize s) = sanitize s"
    by (rule re_sub_fences_id)
  moreover have "strip (sanitize s) = sanitize s"
    by (simp add: sanitize_def strip_strip)
  ultimately show ?thesis
    by (simp add: sanitize_def [of "sanitize s"])
qed

section \<open>Properties of the table selection\<close>

subsection \<open>The scored list and its sorting\<close>

lemma scored_tables_eq:
  "scored_tables qw ts = map (\<lambda>t. (score qw t, t)) (filter (\<lambda>t. 0 < score qw t) ts)"
  by (induction ts) simp_all

lemma scored_tables_Nil_iff: "scored_tables qw ts = [] \<longleftrightarrow> (\<forall>t\<in>set ts. score qw t = 0)"
  by (simp add: scored_tables_eq filter_empty_conv)

lemma set_sort_reverse: "set (sort_reverse xs) = set xs"
  by (simp add: sort_reverse_def)

lemma sort_reverse_descending: "sorted_wrt (\<lambda>p p'. fst p' \<le> fst p) (sort_reverse xs)"
proof -
  have "sorted (map fst (sort_key fst (rev xs)))"
    by (rule sorted_sort_key)
  then have "sorted_wrt (\<lambda>p p'. fst p \<le> fst p') (sort_key fst (rev xs))"
    by (simp only: sorted_wrt_map)
  then show ?thesis
    by (simp only: sort_reverse_def sorted_wrt_rev)
qed

lemma sort_reverse_stable:
  "filter (\<lambda>p. fst p = k) (sort_reverse xs) = filter (\<lambda>p. fst p = k) xs"
proof -
  have "filter (\<lambda>p. fst p = k) (sort_key fst (rev xs)) = filter (\<lambda>p. fst p = k) (rev xs)"
    by (rule sort_key_stable)
  then have "rev (filter (\<lambda>p. fst p = k) (sort_key fst (rev xs))) = filter (\<lambda>p. fst p = k) xs"
    by (simp add: rev_filter)
  then show ?thesis
    by (simp add: sort_reverse_def rev_filter)
qed

lemma in_scored_tables:
  "p \<in> set (scored_tables qw ts) \<Longrightarrow> fst p = score qw (snd p) \<and> 0 < fst p \<and> snd p \<in> set ts"
  by (auto simp add: scored_tables_eq)

lemma select_scored:
  assumes "\<exists>t\<in>set TABLE_METADATA. 0 < score (query_words query) t"
  shows "select_relevant_tables TABLE_METADATA query =
           map snd (take 3 (sort_reverse (scored_tables (query_words query) TABLE_METADATA)))"
proof -
  have "scored_tables (query_words query) TABLE_METADATA \<noteq> []"
    using assms by (auto simp add: scored_tables_Nil_iff)
  then show ?thesis
    by (simp add: select_relevant_tables_def)
qed

lemma lower_upper_ascii:
  assumes "\<forall>c\<in>set q. c < 128"
  shows "lower (upper q) = lower q"
  using assms
proof (induction q)
  case Nil
  show ?case by (simp add: lower_def upper_def)
next
  case (Cons c cs)
  then have "c < 128" and ih: "lower (upper cs) = lower cs" by simp_all
  have "map lower_cp (upper_cp c) = [lower_cp c]"
    using \<open>c < 128\<close> by (auto simp add: lower_cp_def upper_cp_def)
  with ih show ?case by (simp add: lower_def upper_def)
qed

lemma ranked_descending:
  "sorted_wrt (\<lambda>a b. score qw b \<le> score qw a) (map snd (sort_reverse (scored_tables qw ts)))"
proof -
  let ?sorted = "sort_reverse (scored_tables qw ts)"
  have inv: "fst p = score qw (snd p)" if "p \<in> set ?sorted" for p
    using that in_scored_tables [of p qw ts] by (simp add: set_sort_reverse)
  have "sorted_wrt (\<lambda>p p'. fst p' \<le> fst p) ?sorted"
    by (rule sort_reverse_descending)
  then have "sorted_wrt (\<lambda>p p'. score qw (snd p') \<le> score qw (snd p)) ?sorted"
    by (rule sorted_wrt_mono_rel [rotated]) (simp add: inv)
  then show ?thesis
    by (simp only: sorted_wrt_map)
qed

lemma ranked_stable:
  "filter (\<lambda>t. score qw t = k) (map snd (sort_reverse (scored_tables qw ts)))
     = filter (\<lambda>t. score qw t = k) (filter (\<lambda>t. 0 < score qw t) ts)"
proof -
  let ?scored = "scored_tables qw ts"
  let ?sorted = "sort_reverse ?scored"
  have inv: "fst p = score qw (snd p)" if "p \<in> set ?sorted" for p
    using that in_scored_tables [of p qw ts] by (simp add: set_sort_reverse)
  have "filter (\<lambda>t. score qw t = k) (map snd ?sorted)
          = map snd (filter (\<lambda>p. score qw (snd p) = k) ?sorted)"
    by (simp add: filter_map comp_def)
  also have "filter (\<lambda>p. score qw (snd p) = k) ?sorted = filter (\<lambda>p. fst p = k) ?sorted"
    by (rule filter_cong) (simp_all add: inv)
  also have "\<dots> = filter (\<lambda>p. fst p = k) ?scored"
    by (rule sort_reverse_stable)
  also have "map snd \<dots> = filter (\<lambda>t. score qw t = k) (filter (\<lambda>t. 0 < score qw t) ts)"
    by (simp add: scored_tables_eq filter_map comp_def)
  finally show ?thesis .
qed

lemma ranked_length:
  "length (sort_reverse (scored_tables qw ts)) = length (filter (\<lambda>t. 0 < score qw t) ts)"
  by (simp add: sort_reverse_def scored_tables_eq)

subsection \<open>The claims on table selection\<close>

text \<open>
  C4 (fallback law). If every table of the metadata list scores 0 against the question,
  \<open>select_relevant_tables\<close> returns the first three tables of the list in their original
  order; on the empty metadata list it returns the empty list.
\<close>

theorem select_fallback:
  "((\<forall>t\<in>set TABLE_METADATA. score (query_words query) t = 0) \<longrightarrow>
      select_relevant_tables TABLE_METADATA query = take 3 TABLE_METADATA) \<and>
   select_relevant_tables [] query = []"
  by (simp add: select_relevant_tables_def scored_tables_Nil_iff)

theorem select_fallback_witness:
  "score (query_words (ustr ''Weather tomorrow'')) orders_table = 0 \<and>
   score (query_words (ustr ''Weather tomorrow'')) users_table = 0 \<and>
   score (query_words (ustr ''Weather tomorrow'')) products_table = 0 \<and>
   score (query_words (ustr ''Weather tomorrow'')) stores_table = 0 \<and>
   select_relevant_tables example_metadata (ustr ''Weather tomorrow'') =
     [orders_table, users_table, products_table]"
proof -
  have zero: "\<forall>t\<in>set example_metadata. score (query_words (ustr ''Weather tomorrow'')) t = 0"
    by (simp add: select_eval)
  moreover have "take 3 example_metadata = [orders_table, users_table, products_table]"
    by (simp add: example_metadata_def)
  ultimately have "select_relevant_tables example_metadata (ustr ''Weather tomorrow'') =
     [orders_table, users_table, products_table]"
    using select_fallback [of example_metadata "ustr ''Weather tomorrow''"] by simp
  with zero show ?thesis
    by (simp add: example_metadata_def)
qed

text \<open>
  C7. If at least one table scores more than 0, every table returned has a score above
  0, the tables returned are in descending order of score, and for each score the
  tables returned with that score are the first ones of the metadata list with that
  score, in the order of the list: ties keep the load order. The tables returned are
  the first three of the ranking of all tables that score above 0 (all of them, if
  there are fewer than three): that ranking is in descending order of score and holds,
  for each score, exactly the tables of the metadata list with that score, in load
  order.
\<close>

theorem select_descending_stable:
  assumes "\<exists>t\<in>set TABLE_METADATA. 0 < score (query_words query) t"
  shows "(\<forall>t\<in>set (select_relevant_tables TABLE_METADATA query). 0 < score (query_words query) t) \<and>
         sorted_wrt (\<lambda>a b. score (query_words query) b \<le> score (query_words query) a)
           (select_relevant_tables TABLE_METADATA query) \<and>
         (\<forall>k. prefix (filter (\<lambda>t. score (query_words query) t = k)
                        (select_relevant_tables TABLE_METADATA query))
                      (filter (\<lambda>t. score (query_words query) t = k) TABLE_METADATA)) \<and>
         length (select_relevant_tables TABLE_METADATA query)
           = min 3 (length (filter (\<lambda>t. 0 < score (query_words query) t) TABLE_METADATA)) \<and>
         (\<exists>ranked.
            select_relevant_tables TABLE_METADATA query = take 3 ranked \<and>
            sorted_wrt (\<lambda>a b. score (query_words query) b \<le> score (query_words query) a) ranked \<and>
            (\<forall>k. filter (\<lambda>t. score (query_words query) t = k) ranked
                   = filter (\<lambda>t. score (query_words query) t = k)
                       (filter (\<lambda>t. 0 < score (query_words query) t) TABLE_METADATA)))"
proof -
  let ?qw = "query_words query"
  let ?sel = "select_relevant_tables TABLE_METADATA query"
  let ?pos = "filter (\<lambda>t. 0 < score ?qw t) TABLE_METADATA"
  define ranked where "ranked = map snd (sort_reverse (scored_tables ?qw TABLE_METADATA))"
  have sel: "?sel = take 3 ranked"
    using select_scored [OF assms] by (simp add: ranked_def take_map)
  have desc: "sorted_wrt (\<lambda>a b. score ?qw b \<le> score ?qw a) ranked"
    unfolding ranked_def by (rule ranked_descending)
  have stab: "filter (\<lambda>t. score ?qw t = k) ranked = filter (\<lambda>t. score ?qw t = k) ?pos" for k
    unfolding ranked_def by (rule ranked_stable)
  have len: "length ranked = length ?pos"
    by (simp add: ranked_def ranked_length)
  have ranked_pos: "0 < score ?qw t" if "t \<in> set ranked" for t
  proof (rule ccontr)
    assume "\<not> 0 < score ?qw t"
    with that have "t \<in> set (filter (\<lambda>t. score ?qw t = 0) ranked)" by simp
    then have "t \<in> set (filter (\<lambda>t. score ?qw t = 0) ?pos)" by (simp only: stab)
    then show False by auto
  qed
  have positive: "\<forall>t\<in>set ?sel. 0 < score ?qw t"
    using ranked_pos in_set_takeD unfolding sel by fast
  have descending: "sorted_wrt (\<lambda>a b. score ?qw b \<le> score ?qw a) ?sel"
    unfolding sel using desc by (rule sorted_wrt_take)
  have stable: "prefix (filter (\<lambda>t. score ?qw t = k) ?sel)
                  (filter (\<lambda>t. score ?qw t = k) TABLE_METADATA)" for k
  proof -
    have "prefix (filter (\<lambda>t. score ?qw t = k) (take 3 ranked))
            (filter (\<lambda>t. score ?qw t = k) ranked)"
      using take_is_prefix by (rule filter_mono_prefix)
    moreover have "prefix (filter (\<lambda>t. score ?qw t = k) ?pos)
                     (filter (\<lambda>t. score ?qw t = k) TABLE_METADATA)"
    proof (cases "k = 0")
      case True
      then have "filter (\<lambda>t. score ?qw t = k) ?pos = []"
        by (auto simp add: filter_empty_conv)
      then show ?thesis by simp
    next
      case False
      then have "filter (\<lambda>t. score ?qw t = k) ?pos = filter (\<lambda>t. score ?qw t = k) TABLE_METADATA"
        by (auto intro: filter_cong)
      then show ?thesis by simp
    qed
    ultimately show ?thesis by (simp only: sel stab)
  qed
  have count: "length ?sel = min 3 (length ?pos)"
    by (simp add: sel len min.commute)
  have "\<exists>r. ?sel = take 3 r \<and> sorted_wrt (\<lambda>a b. score ?qw b \<le> score ?qw a) r \<and>
          (\<forall>k. filter (\<lambda>t. score ?qw t = k) r = filter (\<lambda>t. score ?qw t = k) ?pos)"
    using sel desc stab by blast
  with positive descending stable count show ?thesis
    by blast
qed

theorem select_descending_stable_witness:
  "0 < score (query_words (ustr ''id name price city'')) users_table \<and>
   map (score (query_words (ustr ''id name price city''))) example_metadata = [1, 2, 1, 1] \<and>
   select_relevant_tables example_metadata (ustr ''id name price city'')
     = [users_table, orders_table, products_table] \<and>
   length (select_relevant_tables example_metadata (ustr ''id name price city''))
     = min 3 (length (filter (\<lambda>t. 0 < score (query_words (ustr ''id name price city'')) t)
                        example_metadata)) \<and>
   list_all (\<lambda>t. 0 < score (query_words (ustr ''id name price city'')) t)
     (select_relevant_tables example_metadata (ustr ''id name price city'')) \<and>
   sorted_wrt (\<lambda>a b. score (query_words (ustr ''id name price city'')) b
                     \<le> score (query_words (ustr ''id name price city'')) a)
     (select_relevant_tables example_metadata (ustr ''id name price city'')) \<and>
   (\<forall>k. prefix (filter (\<lambda>t. score (query_words (ustr ''id name price city'')) t = k)
                  (select_relevant_tables example_metadata (ustr ''id name price city'')))
                (filter (\<lambda>t. score (query_words (ustr ''id name price city'')) t = k)
                  example_metadata))"
proof -
  have users: "0 < score (query_words (ustr ''id name price city'')) users_table"
    by (simp add: select_eval)
  then have scores: "\<exists>t\<in>set example_metadata.
                  0 < score (query_words (ustr ''id name price city'')) t"
    by (auto simp add: example_metadata_def)
  have table_scores: "map (score (query_words (ustr ''id name price city''))) example_metadata
                  = [1, 2, 1, 1]"
    by (simp add: select_eval)
  have selected: "select_relevant_tables example_metadata (ustr ''id name price city'')
                    = [users_table, orders_table, products_table]"
    by (simp add: select_eval)
  from select_descending_stable [OF scores] users table_scores selected show ?thesis
    by (simp only: list_all_iff) blast
qed

text \<open>
  C8, as stated, says that the selection is the same for a question and for its
  upper-case form, whatever the question. \<open>upper\<close> turns the sharp s into SS, which
  \<open>lower\<close> turns into ss and not back into the sharp s: a question that is the word
  Strasse written with the sharp s selects the table with the column of that name, its
  upper-case form STRASSE matches no table and falls back to the head of the list.
\<close>

theorem select_upper_sharp_s:
  "select_relevant_tables [users_table, stores_table] (ustr ''stra'' @ [223] @ ustr ''e'')
     \<noteq> select_relevant_tables [users_table, stores_table]
         (upper (ustr ''stra'' @ [223] @ ustr ''e''))"
  by (simp add: select_eval)

text \<open>
  C8, amended. For every question made of ASCII characters only (code points below
  128) and every metadata list, the selection for the question equals the selection
  for its upper-case form.
\<close>

theorem select_upper_ascii:
  assumes "\<forall>c\<in>set query. c < 128"
  shows "select_relevant_tables TABLE_METADATA query =
         select_relevant_tables TABLE_METADATA (upper query)"
proof -
  have "lower (upper query) = lower query"
    using assms by (rule lower_upper_ascii)
  then have "query_words (upper query) = query_words query"
    by (simp add: query_words_def)
  then show ?thesis
    by (simp add: select_relevant_tables_def)
qed

theorem select_upper_ascii_witness:
  "list_all (\<lambda>c. c < 128) (ustr ''Price of Orders'') \<and>
   select_relevant_tables example_metadata (ustr ''Price of Orders'') =
   select_relevant_tables example_metadata (upper (ustr ''Price of Orders''))"
proof -
  have ascii: "\<forall>c\<in>set (ustr ''Price of Orders''). c < 128"
    by (simp add: ustr_def)
  from select_upper_ascii [OF ascii] ascii show ?thesis
    by (simp only: list_all_iff simp_thms)
qed

text \<open>
  C9. For every question and every metadata list, \<open>select_relevant_tables\<close> returns at
  most three tables, and each of them is an element of the metadata list.
\<close>

theorem select_bounded:
  "length (select_relevant_tables TABLE_METADATA query) \<le> 3 \<and>
   set (select_relevant_tables TABLE_METADATA query) \<subseteq> set TABLE_METADATA"
proof -
  let ?scored = "scored_tables (query_words query) TABLE_METADATA"
  have "set (map snd (take 3 (sort_reverse ?scored))) \<subseteq> set TABLE_METADATA"
  proof
    fix t
    assume "t \<in> set (map snd (take 3 (sort_reverse ?scored)))"
    then obtain p where "p \<in> set (take 3 (sort_reverse ?scored))" and "t = snd p"
      by auto
    then have "p \<in> set ?scored"
      using set_take_subset set_sort_reverse by fastforce
    with \<open>t = snd p\<close> show "t \<in> set TABLE_METADATA"
      using in_scored_tables by blast
  qed
  moreover have "set (take 3 TABLE_METADATA) \<subseteq> set TABLE_METADATA"
    by (rule set_take_subset)
  ultimately show ?thesis
    by (simp add: select_relevant_tables_def Let_def)
qed


section \<open>Properties of the answer formatting\<close>

subsection \<open>Trimming a text of lines\<close>

lemma not_space_colon: "\<not> is_space 58"
  by (simp add: is_space_def)

lemma is_space_newline: "is_space 10"
  by (simp add: is_space_def)

lemma lstrip_keep: "\<not> is_space x \<Longrightarrow> lstrip (u @ x # w) = lstrip u @ x # w"
  by (simp add: lstrip_def dropWhile_append3)

lemma rstrip_keep: "\<not> is_space x \<Longrightarrow> rstrip (u @ x # w) = u @ x # rstrip w"
  by (simp add: rstrip_def dropWhile_append3)

lemma rstrip_snoc_space: "is_space x \<Longrightarrow> rstrip (s @ [x]) = rstrip s"
  by (simp add: rstrip_def)

lemma set_lstrip: "set (lstrip s) \<subseteq> set s"
  unfolding lstrip_def by (rule set_dropWhileD [THEN subsetI])

lemma set_rstrip: "set (rstrip s) \<subseteq> set s"
proof
  fix x
  assume "x \<in> set (rstrip s)"
  then have "x \<in> set (dropWhile is_space (rev s))"
    by (simp add: rstrip_def)
  then have "x \<in> set (rev s)" by (rule set_dropWhileD)
  then show "x \<in> set s" by simp
qed

lemma join_Cons: "join sep (l # ls) = l @ (if ls = [] then [] else sep @ join sep ls)"
  by (cases ls) simp_all

lemma join_snoc: "join sep (ls @ [l]) = (if ls = [] then [] else join sep ls @ sep) @ l"
  by (induction sep ls rule: join.induct) simp_all

lemma text_lines_no_newline: "10 \<notin> set s \<Longrightarrow> text_lines s = [s]"
  by (induction s) simp_all

lemma text_lines_append_newline:
  "10 \<notin> set a \<Longrightarrow> text_lines (a @ 10 # b) = a # text_lines b"
  by (induction a) simp_all

lemma text_lines_join:
  "ls \<noteq> [] \<Longrightarrow> \<forall>l\<in>set ls. 10 \<notin> set l \<Longrightarrow> text_lines (join [10] ls) = ls"
proof (induction ls)
  case Nil
  then show ?case by simp
next
  case (Cons l ls)
  show ?case
  proof (cases "ls = []")
    case True
    with Cons.prems show ?thesis by (simp add: text_lines_no_newline)
  next
    case False
    with Cons have "text_lines (join [10] ls) = ls" by simp
    moreover have "10 \<notin> set l" using Cons.prems by simp
    ultimately show ?thesis using False
      by (simp add: join_Cons text_lines_append_newline)
  qed
qed

lemma lstrip_join_colon:
  assumes "ps \<noteq> []"
  shows "lstrip (join [10] (map colon_line ps)) = join [10] (map colon_line (trim_first ps))"
proof -
  obtain u w ps' where ps: "ps = (u, w) # ps'"
    using assms by (cases ps) auto
  let ?rest = "if map colon_line ps' = [] then [] else [10] @ join [10] (map colon_line ps')"
  have "join [10] (map colon_line ps) = u @ 58 # (w @ ?rest)"
    by (simp add: ps join_Cons colon_line_def)
  then have "lstrip (join [10] (map colon_line ps)) = lstrip u @ 58 # (w @ ?rest)"
    by (simp only: lstrip_keep [OF not_space_colon])
  also have "\<dots> = join [10] (map colon_line (trim_first ps))"
    by (simp add: ps trim_first_def join_Cons colon_line_def)
  finally show ?thesis .
qed

lemma rstrip_join_colon:
  assumes "ps \<noteq> []"
  shows "rstrip (join [10] (map colon_line ps)) = join [10] (map colon_line (trim_last ps))"
proof -
  obtain ps' u w where ps: "ps = ps' @ [(u, w)]"
    using assms by (cases ps rule: rev_cases) auto
  let ?front = "if map colon_line ps' = [] then [] else join [10] (map colon_line ps') @ [10]"
  have "join [10] (map colon_line ps) = (?front @ u) @ 58 # w"
    by (simp add: ps join_snoc colon_line_def)
  then have "rstrip (join [10] (map colon_line ps)) = (?front @ u) @ 58 # rstrip w"
    by (simp only: rstrip_keep [OF not_space_colon])
  also have "\<dots> = join [10] (map colon_line (trim_last ps))"
    by (simp add: ps trim_last_def join_snoc colon_line_def)
  finally show ?thesis .
qed

lemma trim_first_not_Nil: "trim_first ps \<noteq> []"
  by (simp add: trim_first_def)

lemma strip_join_colon:
  assumes "ps \<noteq> []"
  shows "strip (join [10] (map colon_line ps))
           = join [10] (map colon_line (trim_last (trim_first ps)))"
  using assms
  by (simp add: strip_def lstrip_join_colon rstrip_join_colon trim_first_not_Nil)

lemma length_trim: "ps \<noteq> [] \<Longrightarrow> length (trim_last (trim_first ps)) = length ps"
  by (cases ps) (simp_all add: trim_last_def trim_first_def)

lemma trim_first_nth:
  assumes "i < length ps"
  shows "snd (trim_first ps ! i) = snd (ps ! i) \<and>
         (fst (trim_first ps ! i) = fst (ps ! i) \<or> fst (trim_first ps ! i) = lstrip (fst (ps ! i)))"
proof (cases ps)
  case Nil
  with assms show ?thesis by simp
next
  case (Cons p ps')
  then show ?thesis by (cases i) (simp_all add: trim_first_def)
qed

lemma trim_last_nth:
  assumes "i < length ps"
  shows "fst (trim_last ps ! i) = fst (ps ! i) \<and>
         (snd (trim_last ps ! i) = snd (ps ! i) \<or> snd (trim_last ps ! i) = rstrip (snd (ps ! i)))"
proof -
  from assms have "ps \<noteq> []" by auto
  then obtain ps' p where ps: "ps = ps' @ [p]"
    by (cases ps rule: rev_cases) auto
  show ?thesis
  proof (cases "i < length ps'")
    case True
    then show ?thesis by (simp add: ps trim_last_def nth_append)
  next
    case False
    with assms ps have "i = length ps'" by simp
    then show ?thesis by (simp add: ps trim_last_def)
  qed
qed

lemma trim_nth:
  assumes "i < length ps"
  shows "(fst (trim_last (trim_first ps) ! i) = fst (ps ! i) \<or>
          fst (trim_last (trim_first ps) ! i) = lstrip (fst (ps ! i))) \<and>
         (snd (trim_last (trim_first ps) ! i) = snd (ps ! i) \<or>
          snd (trim_last (trim_first ps) ! i) = rstrip (snd (ps ! i)))"
proof -
  have len: "i < length (trim_first ps)"
    using assms by (simp add: trim_first_def)
  from trim_last_nth [OF len] trim_first_nth [OF assms] show ?thesis
    by metis
qed


lemma frame_rows_eq:
  "frame_rows ranking cols i acc rows
     = acc @ concat (map (\<lambda>l. l @ [10]) (answer_lines ranking cols i rows))"
  by (induction rows arbitrary: i acc) (simp_all add: answer_lines_def answer_line_def)

lemma concat_newline_join:
  "ls \<noteq> [] \<Longrightarrow> concat (map (\<lambda>l. l @ [10]) ls) = join [10] ls @ [10]"
  by (induction ls rule: join.induct [of _ "[10]"]) simp_all

lemma strip_snoc_newline: "strip (s @ [10]) = strip s"
proof (cases "\<forall>x\<in>set s. is_space x")
  case True
  then have "lstrip (s @ [10]) = []" and "lstrip s = []"
    by (simp_all add: lstrip_def is_space_newline)
  then show ?thesis by (simp add: strip_def)
next
  case False
  then obtain x where "x \<in> set s" and "\<not> is_space x" by blast
  then have "lstrip (s @ [10]) = lstrip s @ [10]"
    by (simp add: lstrip_def dropWhile_append1)
  then show ?thesis
    by (simp add: strip_def rstrip_snoc_space is_space_newline)
qed

lemma answer_lines_not_Nil: "rows \<noteq> [] \<Longrightarrow> answer_lines ranking cols i rows \<noteq> []"
  by (simp add: answer_lines_def enumerate_eq_zip)

lemma frame_answer_eq:
  assumes "rows \<noteq> []"
  shows "frame_answer query rows cols
           = strip (join [10] (answer_lines (is_ranking_query query) cols 1 rows))"
proof -
  let ?ls = "answer_lines (is_ranking_query query) cols 1 rows"
  have "?ls \<noteq> []" using assms by (rule answer_lines_not_Nil)
  then have "concat (map (\<lambda>l. l @ [10]) ?ls) = join [10] ?ls @ [10]"
    by (rule concat_newline_join)
  then show ?thesis
    using assms by (simp add: frame_answer_def frame_rows_eq strip_snoc_newline)
qed

lemma row_line_colon:
  assumes "cols \<noteq> []" and "row \<noteq> []"
  shows "row_line cols row = hd cols @ 58 # row_tail cols row"
proof -
  obtain c cs where cols: "cols = c # cs" using assms(1) by (cases cols) auto
  obtain v vs where row: "row = v # vs" using assms(2) by (cases row) auto
  let ?more = "map (\<lambda>(c, v). c @ ustr '': '' @ format_value v) (zip cs vs)"
  let ?rest = "if ?more = [] then [] else ustr '', '' @ join (ustr '', '') ?more"
  have "row_line cols row = c @ 58 # (32 # format_value v @ ?rest)"
    by (simp add: cols row row_line_def pairs_def join_Cons ustr_def)
  then show ?thesis
    by (simp add: row_tail_def cols)
qed

lemma answer_line_colon:
  assumes "cols \<noteq> []" and "row \<noteq> []"
  shows "answer_line ranking cols i row
           = colon_line (rank_prefix ranking i @ hd cols, row_tail cols row)"
  using row_line_colon [OF assms]
  by (simp add: answer_line_def colon_line_def rank_prefix_def)

lemma set_join: "set (join sep ps) \<subseteq> set sep \<union> \<Union> (set ` set ps)"
  by (induction sep ps rule: join.induct) auto

lemma str_nat_no_newline: "10 \<notin> set (str_nat n)"
proof (induction n rule: str_nat.induct)
  case (1 n)
  show ?case
  proof (cases "n < 10")
    case True
    then show ?thesis by (simp add: str_nat.simps [of n])
  next
    case False
    with 1 show ?thesis by (simp add: str_nat.simps [of n])
  qed
qed

lemma row_line_no_newline:
  assumes "\<forall>c\<in>set cols. 10 \<notin> set c" and "\<forall>v\<in>set row. 10 \<notin> set (format_value v)"
  shows "10 \<notin> set (row_line cols row)"
proof
  assume "10 \<in> set (row_line cols row)"
  then have "10 \<in> set (ustr '', '') \<union> \<Union> (set ` set (pairs cols row))"
    using set_join unfolding row_line_def by blast
  then obtain p where "p \<in> set (pairs cols row)" and "10 \<in> set p"
    by (auto simp add: ustr_def)
  then obtain c v where "(c, v) \<in> set (zip cols row)"
    and "10 \<in> set (c @ ustr '': '' @ format_value v)"
    by (auto simp add: pairs_def)
  then have "c \<in> set cols" and "v \<in> set row" and "10 \<in> set c \<or> 10 \<in> set (format_value v)"
    by (auto simp add: ustr_def dest: set_zip_leftD set_zip_rightD)
  with assms show False by blast
qed

lemma answer_line_no_newline:
  assumes "\<forall>c\<in>set cols. 10 \<notin> set c" and "\<forall>v\<in>set row. 10 \<notin> set (format_value v)"
  shows "10 \<notin> set (answer_line ranking cols i row)"
  using row_line_no_newline [OF assms]
  by (simp add: answer_line_def ustr_def str_nat_no_newline)

lemma not_Rank_append_colon:
  assumes "\<not> prefix (ustr ''Rank '') u"
  shows "\<not> prefix (ustr ''Rank '') (u @ 58 # w)"
proof
  assume "prefix (ustr ''Rank '') (u @ 58 # w)"
  with assms obtain us where "ustr ''Rank '' = u @ us" and "prefix us (58 # w)"
    by (auto simp add: prefix_append)
  moreover from this assms have "us \<noteq> []" by auto
  ultimately have "58 \<in> set (ustr ''Rank '')"
    by (cases us) auto
  then show False by (simp add: ustr_def)
qed


lemma lstrip_Rank: "lstrip (rank_prefix True i @ u) = rank_prefix True i @ u"
  by (simp add: rank_prefix_def lstrip_def ustr_def is_space_def)

lemma trimmed_line_cases:
  assumes "i < length ps"
  shows "\<exists>u w. trim_last (trim_first ps) ! i = (u, w) \<and>
           (u = fst (ps ! i) \<or> u = lstrip (fst (ps ! i))) \<and>
           (w = snd (ps ! i) \<or> w = rstrip (snd (ps ! i)))"
  using trim_nth [OF assms] by (cases "trim_last (trim_first ps) ! i") auto

lemma pairs_take:
  "pairs (take n cols) (take n row) = take n (pairs cols row)"
  by (simp add: pairs_def take_zip take_map)

lemma zip_take_length_right: "zip xs (take (length xs) ys) = zip xs ys"
proof (induction xs arbitrary: ys)
  case Nil
  show ?case by simp
next
  case (Cons x xs)
  then show ?case by (cases ys) simp_all
qed

lemma row_line_take_length: "row_line cols (take (length cols) row) = row_line cols row"
  by (simp add: row_line_def pairs_def zip_take_length_right)

lemma frame_rows_take_length:
  "frame_rows ranking cols i acc (map (take (length cols)) rows) = frame_rows ranking cols i acc rows"
  by (induction rows arbitrary: i acc) (simp_all add: row_line_take_length)

lemma pairs_nth:
  "i < min (length cols) (length row) \<Longrightarrow>
   pairs cols row ! i = cols ! i @ ustr '': '' @ format_value (row ! i)"
  by (simp add: pairs_def)

lemma pairs_upt:
  "pairs cols row
     = map (\<lambda>i. cols ! i @ ustr '': '' @ format_value (row ! i)) [0..<min (length cols) (length row)]"
  by (rule nth_equalityI) (simp_all add: pairs_def)

lemma frame_rows_concat:
  "frame_rows ranking cols i acc rows
     = acc @ concat (map (\<lambda>(j, row).
         (if ranking then ustr ''Rank '' @ str_nat j @ ustr '': '' else []) @
         join (ustr '', '')
           (map (\<lambda>k. cols ! k @ ustr '': '' @ format_value (row ! k))
              [0..<min (length cols) (length row)]) @ [10]) (enumerate i rows))"
  by (induction rows arbitrary: i acc) (simp_all add: row_line_def pairs_upt)

subsection \<open>The claims on answer formatting\<close>

text \<open>
  C5, as stated, says that a non-empty row sequence always gives one output line per
  row. A value is written into its line unchanged, so a string value that holds a
  newline makes two lines out of one row.
\<close>

theorem frame_answer_newline_in_value:
  "length (text_lines (frame_answer (ustr ''show notes'')
             [[VStr (ustr ''first\<newline>second'')]] [ustr ''note'']))
     \<noteq> length [[VStr (ustr ''first\<newline>second'')]]"
  by (simp add: frame_eval)

text \<open>
  C5, amended. Take a non-empty row sequence and at least one column, rows with at
  least one value each, no newline character in a column name or in the text of a
  value, and a first column name that does not itself begin with \<^verbatim>\<open>Rank \<close> (leading
  whitespace aside). Then the answer is the lines of the rows, joined with newlines and
  trimmed of whitespace at both ends; it has exactly one line per row; and line \<open>i\<close>
  (counted from 1) begins with \<^verbatim>\<open>Rank i: \<close> if and only if the question asks for a
  ranking.
\<close>

theorem frame_answer_lines:
  assumes rows: "rows \<noteq> []" and cols: "cols \<noteq> []"
    and nonempty: "\<forall>row\<in>set rows. row \<noteq> []"
    and cols_nl: "\<forall>c\<in>set cols. 10 \<notin> set c"
    and vals_nl: "\<forall>row\<in>set rows. \<forall>v\<in>set row. 10 \<notin> set (format_value v)"
    and first_col: "\<not> prefix (ustr ''Rank '') (lstrip (hd cols))"
  shows "frame_answer query rows cols
           = strip (join [10] (answer_lines (is_ranking_query query) cols 1 rows)) \<and>
         length (text_lines (frame_answer query rows cols)) = length rows \<and>
         (\<forall>i<length rows.
            prefix (ustr ''Rank '' @ str_nat (i + 1) @ ustr '': '')
              (text_lines (frame_answer query rows cols) ! i) \<longleftrightarrow> is_ranking_query query)"
proof -
  let ?r = "is_ranking_query query"
  let ?ls = "answer_lines ?r cols 1 rows"
  define ps where
    "ps = map (\<lambda>(j, row). (rank_prefix ?r j @ hd cols, row_tail cols row)) (enumerate 1 rows)"
  define out where "out = map colon_line (trim_last (trim_first ps))"
  have eq: "frame_answer query rows cols = strip (join [10] ?ls)"
    using rows by (rule frame_answer_eq)
  have len_ps: "length ps = length rows" by (simp add: ps_def)
  have ps_nth: "ps ! i = (rank_prefix ?r (i + 1) @ hd cols, row_tail cols (rows ! i))"
    if "i < length rows" for i
    using that by (simp add: ps_def nth_enumerate_eq)
  have ls_nth: "?ls ! i = answer_line ?r cols (i + 1) (rows ! i)" if "i < length rows" for i
    using that by (simp add: answer_lines_def nth_enumerate_eq)
  have ls_ps: "?ls = map colon_line ps"
  proof (rule nth_equalityI)
    show "length ?ls = length (map colon_line ps)"
      by (simp add: answer_lines_def ps_def)
  next
    fix i
    assume "i < length ?ls"
    then have i: "i < length rows" by (simp add: answer_lines_def)
    then have "rows ! i \<noteq> []" using nonempty by simp
    then have "answer_line ?r cols (i + 1) (rows ! i)
                 = colon_line (rank_prefix ?r (i + 1) @ hd cols, row_tail cols (rows ! i))"
      using cols by (simp add: answer_line_colon)
    then show "?ls ! i = map colon_line ps ! i"
      using i ls_nth [OF i] ps_nth [OF i] by (simp add: len_ps)
  qed
  have ps_ne: "ps \<noteq> []" using rows len_ps by auto
  have out_eq: "frame_answer query rows cols = join [10] out"
    using strip_join_colon [OF ps_ne] by (simp only: eq ls_ps out_def)
  have len_out: "length out = length rows"
    using length_trim [OF ps_ne] len_ps by (simp add: out_def)
  have shape: "\<exists>u w. out ! i = u @ 58 # w \<and>
                 (u = rank_prefix ?r (i + 1) @ hd cols \<or> u = lstrip (rank_prefix ?r (i + 1) @ hd cols)) \<and>
                 set w \<subseteq> set (row_tail cols (rows ! i))"
    if i: "i < length rows" for i
  proof -
    from i have "i < length ps" by (simp add: len_ps)
    from trimmed_line_cases [OF this] obtain u w
      where t: "trim_last (trim_first ps) ! i = (u, w)"
        and u: "u = fst (ps ! i) \<or> u = lstrip (fst (ps ! i))"
        and w: "w = snd (ps ! i) \<or> w = rstrip (snd (ps ! i))"
      by blast
    have "i < length (trim_last (trim_first ps))"
      using i length_trim [OF ps_ne] len_ps by simp
    then have "out ! i = u @ 58 # w"
      using t by (simp add: out_def colon_line_def)
    moreover have "set w \<subseteq> set (row_tail cols (rows ! i))"
      using w set_rstrip by (auto simp add: ps_nth [OF i])
    ultimately show ?thesis
      using u by (auto simp add: ps_nth [OF i])
  qed
  have out_nl: "\<forall>l\<in>set out. 10 \<notin> set l"
  proof
    fix l
    assume "l \<in> set out"
    then obtain i where i: "i < length rows" and l: "l = out ! i"
      using len_out by (metis in_set_conv_nth)
    from shape [OF i] obtain u w where uw: "out ! i = u @ 58 # w"
      and u_cases: "u = rank_prefix ?r (i + 1) @ hd cols \<or>
                    u = lstrip (rank_prefix ?r (i + 1) @ hd cols)"
      and w: "set w \<subseteq> set (row_tail cols (rows ! i))"
      by blast
    have u: "set u \<subseteq> set (rank_prefix ?r (i + 1) @ hd cols)"
      using u_cases set_lstrip [of "rank_prefix ?r (i + 1) @ hd cols"] by auto
    have row: "rows ! i \<in> set rows" using i by simp
    then have "10 \<notin> set (answer_line ?r cols (i + 1) (rows ! i))"
      using cols_nl vals_nl by (simp add: answer_line_no_newline)
    moreover have "answer_line ?r cols (i + 1) (rows ! i)
                     = (rank_prefix ?r (i + 1) @ hd cols) @ 58 # row_tail cols (rows ! i)"
      using cols nonempty row by (simp add: answer_line_colon colon_line_def)
    ultimately have "10 \<notin> set (rank_prefix ?r (i + 1) @ hd cols)"
      and "10 \<notin> set (row_tail cols (rows ! i))"
      by simp_all
    with u w have "10 \<notin> set (u @ 58 # w)" by auto
    with l uw show "10 \<notin> set l" by simp
  qed
  have "out \<noteq> []" using len_out rows by auto
  then have "text_lines (join [10] out) = out"
    using out_nl by (rule text_lines_join)
  then have lines: "text_lines (frame_answer query rows cols) = out"
    by (simp only: out_eq)
  have rank: "prefix (ustr ''Rank '' @ str_nat (i + 1) @ ustr '': '') (out ! i) \<longleftrightarrow> ?r"
    if i: "i < length rows" for i
  proof (cases ?r)
    case True
    from shape [OF i] obtain u w where uw: "out ! i = u @ 58 # w"
      and "u = rank_prefix ?r (i + 1) @ hd cols \<or> u = lstrip (rank_prefix ?r (i + 1) @ hd cols)"
      by blast
    then have "u = rank_prefix True (i + 1) @ hd cols"
      using True by (auto simp add: lstrip_Rank)
    then have "out ! i = (ustr ''Rank '' @ str_nat (i + 1) @ ustr '': '') @ hd cols @ 58 # w"
      using uw by (simp add: rank_prefix_def)
    then show ?thesis using True by (simp only: prefixI simp_thms)
  next
    case False
    from shape [OF i] obtain u w where uw: "out ! i = u @ 58 # w"
      and "u = rank_prefix ?r (i + 1) @ hd cols \<or> u = lstrip (rank_prefix ?r (i + 1) @ hd cols)"
      by blast
    then have u: "u = hd cols \<or> u = lstrip (hd cols)"
      using False by (simp add: rank_prefix_def)
    have "\<not> prefix (ustr ''Rank '') u"
    proof
      assume p: "prefix (ustr ''Rank '') u"
      with u first_col have "u = hd cols" by auto
      with p obtain t where "hd cols = 82 # t"
        by (auto simp add: ustr_def prefix_def)
      then have "lstrip (hd cols) = hd cols"
        by (simp add: lstrip_def is_space_def)
      with first_col p \<open>u = hd cols\<close> show False by simp
    qed
    then have "\<not> prefix (ustr ''Rank '') (out ! i)"
      using uw by (simp only: not_Rank_append_colon not_False_eq_True)
    then have "\<not> prefix (ustr ''Rank '' @ str_nat (i + 1) @ ustr '': '') (out ! i)"
      using append_prefixD by blast
    with False show ?thesis by simp
  qed
  from eq lines len_out rank show ?thesis
    by simp
qed


theorem frame_answer_lines_witness:
  "example_rows \<noteq> [] \<and> example_cols \<noteq> [] \<and> list_all (\<lambda>row. row \<noteq> []) example_rows \<and>
   list_all (\<lambda>c. 10 \<notin> set c) example_cols \<and>
   list_all (\<lambda>row. list_all (\<lambda>v. 10 \<notin> set (format_value v)) row) example_rows \<and>
   \<not> prefix (ustr ''Rank '') (lstrip (hd example_cols)) \<and>
   is_ranking_query (ustr ''Top customers'') \<and>
   length (text_lines (frame_answer (ustr ''Top customers'') example_rows example_cols)) = 2 \<and>
   prefix (ustr ''Rank '' @ str_nat 1 @ ustr '': '')
     (text_lines (frame_answer (ustr ''Top customers'') example_rows example_cols) ! 0) \<and>
   prefix (ustr ''Rank '' @ str_nat 2 @ ustr '': '')
     (text_lines (frame_answer (ustr ''Top customers'') example_rows example_cols) ! 1)"
proof -
  have h1: "example_rows \<noteq> []" by (simp add: example_rows_def)
  have h2: "example_cols \<noteq> []" by (simp add: example_cols_def)
  have h3: "\<forall>row\<in>set example_rows. row \<noteq> []" by (simp add: example_rows_def)
  have h4: "\<forall>c\<in>set example_cols. 10 \<notin> set c" by (simp add: example_cols_def ustr_def)
  have h5: "\<forall>row\<in>set example_rows. \<forall>v\<in>set row. 10 \<notin> set (format_value v)"
    by (simp add: example_rows_def ustr_def str_int_def str_nat.simps)
  have h6: "\<not> prefix (ustr ''Rank '') (lstrip (hd example_cols))"
    by (simp add: example_cols_def ustr_def lstrip_def is_space_def)
  have ranking: "is_ranking_query (ustr ''Top customers'')"
    by (simp add: is_ranking_query_def ranking_keywords_def lower_def lower_cp_def ustr_def)
  have len: "length example_rows = 2" by (simp add: example_rows_def)
  note lines = frame_answer_lines [OF h1 h2 h3 h4 h5 h6, of "ustr ''Top customers''"]
  from lines
  have "length (text_lines (frame_answer (ustr ''Top customers'') example_rows example_cols))
          = length example_rows"
    by blast
  then
  have count: "length (text_lines (frame_answer (ustr ''Top customers'') example_rows example_cols)) = 2"
    by (simp only: len)
  from lines ranking
  have ranked: "\<forall>i<length example_rows. prefix (ustr ''Rank '' @ str_nat (i + 1) @ ustr '': '')
        (text_lines (frame_answer (ustr ''Top customers'') example_rows example_cols) ! i)"
    by blast
  have first: "prefix (ustr ''Rank '' @ str_nat 1 @ ustr '': '')
        (text_lines (frame_answer (ustr ''Top customers'') example_rows example_cols) ! 0)"
    using ranked [rule_format, of 0] len by simp
  have second: "prefix (ustr ''Rank '' @ str_nat 2 @ ustr '': '')
        (text_lines (frame_answer (ustr ''Top customers'') example_rows example_cols) ! 1)"
    using ranked [rule_format, of 1] len by (simp add: numeral_2_eq_2)
  from h1 h2 h3 h4 h5 h6 ranking count first second show ?thesis
    by (simp only: list_all_iff) blast
qed

text \<open>
  C6. On an empty row sequence \<open>frame_answer\<close> returns the fixed text
  \<^verbatim>\<open>No results found.\<close>, for every question (whether it asks for a ranking or not) and
  every list of column names.
\<close>

theorem frame_answer_no_rows: "frame_answer query [] cols = ustr ''No results found.''"
  by (simp add: frame_answer_def)

text \<open>
  C10. \<open>zip\<close> stops at the shorter of its arguments: a row gives as many pairs as the
  smaller of the two lengths, pair \<open>i\<close> is column name \<open>i\<close>, a colon and a blank, and
  value \<open>i\<close>, and the line of the row is these pairs joined with \<^verbatim>\<open>, \<close>. The line is
  that of the row and the column list both cut to this length; values beyond the last
  column name never reach the answer, and the answer is made of exactly these lines.
  Nothing is padded, and no row makes the function fail.
\<close>

theorem frame_answer_zip_shortest:
  "length (pairs cols row) = min (length cols) (length row) \<and>
   (\<forall>i<min (length cols) (length row).
      pairs cols row ! i = cols ! i @ ustr '': '' @ format_value (row ! i)) \<and>
   pairs cols row
     = pairs (take (min (length cols) (length row)) cols) (take (min (length cols) (length row)) row) \<and>
   row_line cols row
     = join (ustr '', '')
         (map (\<lambda>i. cols ! i @ ustr '': '' @ format_value (row ! i))
            [0..<min (length cols) (length row)]) \<and>
   row_line cols row
     = row_line (take (min (length cols) (length row)) cols) (take (min (length cols) (length row)) row) \<and>
   frame_answer query rows cols = frame_answer query (map (take (length cols)) rows) cols \<and>
   frame_answer query rows cols
     = (if rows = [] then ustr ''No results found.''
        else strip (concat (map (\<lambda>(i, row).
               (if is_ranking_query query then ustr ''Rank '' @ str_nat i @ ustr '': '' else []) @
               join (ustr '', '')
                 (map (\<lambda>j. cols ! j @ ustr '': '' @ format_value (row ! j))
                    [0..<min (length cols) (length row)]) @ [10]) (enumerate 1 rows))))"
proof -
  have len: "length (pairs cols row) = min (length cols) (length row)"
    by (simp add: pairs_def)
  have nth: "\<forall>i<min (length cols) (length row).
      pairs cols row ! i = cols ! i @ ustr '': '' @ format_value (row ! i)"
    by (simp add: pairs_nth)
  have "take (min (length cols) (length row)) (pairs cols row) = pairs cols row"
    using len by simp
  then have eq: "pairs cols row
     = pairs (take (min (length cols) (length row)) cols) (take (min (length cols) (length row)) row)"
    by (simp only: pairs_take)
  then have line_take: "row_line cols row
     = row_line (take (min (length cols) (length row)) cols) (take (min (length cols) (length row)) row)"
    by (simp only: row_line_def)
  have line: "row_line cols row
     = join (ustr '', '')
         (map (\<lambda>i. cols ! i @ ustr '': '' @ format_value (row ! i))
            [0..<min (length cols) (length row)])"
    by (simp only: row_line_def pairs_upt [symmetric])
  have cut: "frame_answer query rows cols = frame_answer query (map (take (length cols)) rows) cols"
    by (simp add: frame_answer_def frame_rows_take_length)
  have answer: "frame_answer query rows cols
     = (if rows = [] then ustr ''No results found.''
        else strip (concat (map (\<lambda>(i, row).
               (if is_ranking_query query then ustr ''Rank '' @ str_nat i @ ustr '': '' else []) @
               join (ustr '', '')
                 (map (\<lambda>j. cols ! j @ ustr '': '' @ format_value (row ! j))
                    [0..<min (length cols) (length row)]) @ [10]) (enumerate 1 rows))))"
    by (simp only: frame_answer_def frame_rows_concat append_Nil)
  from len nth eq line line_take cut answer show ?thesis
    by blast
qed

theorem frame_answer_zip_shortest_witness:
  "length (pairs [ustr ''a'', ustr ''b''] [VInt 1, VInt 2, VInt 3]) = 2 \<and>
   length (pairs [ustr ''a'', ustr ''b''] [VInt 4]) = 1 \<and>
   pairs [ustr ''a'', ustr ''b''] [VInt 1, VInt 2, VInt 3] ! 1 = ustr ''b: 2'' \<and>
   row_line [ustr ''a'', ustr ''b''] [VInt 1, VInt 2, VInt 3] = ustr ''a: 1, b: 2'' \<and>
   row_line [ustr ''a'', ustr ''b''] [VInt 4] = ustr ''a: 4'' \<and>
   frame_answer (ustr ''list all'') [[VInt 1, VInt 2, VInt 3], [VInt 4]] [ustr ''a'', ustr ''b'']
     = ustr ''a: 1, b: 2\<newline>a: 4''"
proof -
  note long = frame_answer_zip_shortest [of "[ustr ''a'', ustr ''b'']" "[VInt 1, VInt 2, VInt 3]"
      "ustr ''list all''" "[[VInt 1, VInt 2, VInt 3], [VInt 4]]"]
  note short = frame_answer_zip_shortest [of "[ustr ''a'', ustr ''b'']" "[VInt 4]"
      "ustr ''list all''" "[[VInt 1, VInt 2, VInt 3], [VInt 4]]"]
  from long have "length (pairs [ustr ''a'', ustr ''b''] [VInt 1, VInt 2, VInt 3])
      = min (length [ustr ''a'', ustr ''b'']) (length [VInt 1, VInt 2, VInt 3])"
    by blast
  then have c1: "length (pairs [ustr ''a'', ustr ''b''] [VInt 1, VInt 2, VInt 3]) = 2"
    by simp
  from short have "length (pairs [ustr ''a'', ustr ''b''] [VInt 4])
      = min (length [ustr ''a'', ustr ''b'']) (length [VInt 4])"
    by blast
  then have c2: "length (pairs [ustr ''a'', ustr ''b''] [VInt 4]) = 1"
    by simp
  from long have "\<forall>i<min (length [ustr ''a'', ustr ''b'']) (length [VInt 1, VInt 2, VInt 3]).
      pairs [ustr ''a'', ustr ''b''] [VInt 1, VInt 2, VInt 3] ! i
        = [ustr ''a'', ustr ''b''] ! i @ ustr '': '' @ format_value ([VInt 1, VInt 2, VInt 3] ! i)"
    by blast
  then have "pairs [ustr ''a'', ustr ''b''] [VInt 1, VInt 2, VInt 3] ! 1
      = [ustr ''a'', ustr ''b''] ! 1 @ ustr '': '' @ format_value ([VInt 1, VInt 2, VInt 3] ! 1)"
    by simp
  then have c3: "pairs [ustr ''a'', ustr ''b''] [VInt 1, VInt 2, VInt 3] ! 1 = ustr ''b: 2''"
    by (simp add: ustr_def str_int_def str_nat.simps)
  have c4: "row_line [ustr ''a'', ustr ''b''] [VInt 1, VInt 2, VInt 3] = ustr ''a: 1, b: 2''"
    by (simp add: row_line_def pairs_def ustr_def str_int_def str_nat.simps)
  have c5: "row_line [ustr ''a'', ustr ''b''] [VInt 4] = ustr ''a: 4''"
    by (simp add: row_line_def pairs_def ustr_def str_int_def str_nat.simps)
  have c6: "frame_answer (ustr ''list all'') [[VInt 1, VInt 2, VInt 3], [VInt 4]] [ustr ''a'', ustr ''b'']
     = ustr ''a: 1, b: 2\<newline>a: 4''"
    by (simp add: frame_eval)
  from c1 c2 c3 c4 c5 c6 show ?thesis by blast
qed

end
